theory Spec2Isabelle
  imports Main
begin

section \<open>The dedupe cache of the email monitor\<close>

text \<open>
  \<^verbatim>\<open>createDedupeCache\<close> (monitor.ts) closes over three variables: \<^verbatim>\<open>ttlMs\<close>,
  \<^verbatim>\<open>maxSize\<close> and \<^verbatim>\<open>cache\<close>, a JavaScript \<^verbatim>\<open>Map<string, number>\<close>. A JavaScript map
  iterates in insertion order, so the map is an association list, oldest entry first.
  Times and sizes are integers (milliseconds, entry counts); \<^verbatim>\<open>Math.floor\<close> is the
  identity on them. A key is \<^verbatim>\<open>string | undefined | null\<close>: \<open>None\<close> stands for the two
  absent values.
\<close>

type_synonym store = "(string \<times> int) list"

record DedupeOptions =
  options_ttlMs :: int
  options_maxSize :: int

record DedupeCache =
  ttlMs :: int
  maxSize :: int
  cache :: store

definition createDedupeCache :: "DedupeOptions \<Rightarrow> DedupeCache" where
  "createDedupeCache options =
     \<lparr>ttlMs = max 0 (options_ttlMs options),
      maxSize = max 0 (options_maxSize options),
      cache = []\<rparr>"

text \<open>\<^verbatim>\<open>Map.get\<close>, \<^verbatim>\<open>Map.delete\<close> and \<^verbatim>\<open>Map.set\<close>: a key that is set while present
  keeps its place, a new key goes to the end.\<close>

definition map_get :: "store \<Rightarrow> string \<Rightarrow> int option" where
  "map_get c key = map_of c key"

definition map_delete :: "string \<Rightarrow> store \<Rightarrow> store" where
  "map_delete key c = filter (\<lambda>e. fst e \<noteq> key) c"

fun map_set :: "string \<Rightarrow> int \<Rightarrow> store \<Rightarrow> store" where
  "map_set key v [] = [(key, v)]"
| "map_set key v (e # es) = (if fst e = key then (key, v) # es else e # map_set key v es)"

definition touch :: "string \<Rightarrow> int \<Rightarrow> store \<Rightarrow> store" where
  "touch key now c = map_set key now (map_delete key c)"

text \<open>The \<^verbatim>\<open>for\<close> loop of \<^verbatim>\<open>prune\<close> visits every entry once and deletes the entries
  older than the cutoff by key.\<close>

fun pruneExpired :: "int \<Rightarrow> store \<Rightarrow> store \<Rightarrow> store" where
  "pruneExpired cutoff [] c = c"
| "pruneExpired cutoff (e # es) c =
     pruneExpired cutoff es (if snd e < cutoff then map_delete (fst e) c else c)"

text \<open>The \<^verbatim>\<open>while\<close> loop of \<^verbatim>\<open>prune\<close>: while the map is larger than \<^verbatim>\<open>maxSize\<close>, delete
  its first key; the loop breaks when there is no first key or the first key is the
  empty string (\<^verbatim>\<open>!oldestKey\<close>).\<close>

function pruneOldest :: "int \<Rightarrow> store \<Rightarrow> store" where
  "pruneOldest m c =
     (if int (length c) > m
      then (case c of
              [] \<Rightarrow> c
            | e # es \<Rightarrow> if fst e = [] then c else pruneOldest m (map_delete (fst e) c))
      else c)"
  by pat_completeness auto
termination
proof (relation "measure (\<lambda>(m, c). length c)")
  show "wf (measure (\<lambda>(m, c). length c))" by simp
next
  fix m :: int and c :: store and e es
  assume "c = e # es"
  then have "length (map_delete (fst e) c) \<le> length es"
    by (simp add: map_delete_def)
  with \<open>c = e # es\<close> show "((m, map_delete (fst e) c), (m, c)) \<in> measure (\<lambda>(m, c). length c)"
    by simp
qed

declare pruneOldest.simps [simp del]

definition prune :: "int \<Rightarrow> DedupeCache \<Rightarrow> store \<Rightarrow> store" where
  "prune now d c =
     pruneOldest (maxSize d)
       (if ttlMs d > 0 then pruneExpired (now - ttlMs d) c c else c)"

definition check :: "string option \<Rightarrow> int \<Rightarrow> DedupeCache \<Rightarrow> bool \<times> DedupeCache" where
  "check key now d =
     (case key of
        None \<Rightarrow> (False, d)
      | Some k \<Rightarrow>
          if k = [] then (False, d)
          else
            (case map_get (cache d) k of
               Some existing \<Rightarrow>
                 if ttlMs d \<le> 0 \<or> now - existing < ttlMs d
                 then (True, d\<lparr>cache := touch k now (cache d)\<rparr>)
                 else (False, d\<lparr>cache := prune now d (touch k now (cache d))\<rparr>)
             | None \<Rightarrow> (False, d\<lparr>cache := prune now d (touch k now (cache d))\<rparr>)))"

text \<open>A sequence of calls on one cache, each with its key and its time.\<close>

fun checks :: "DedupeCache \<Rightarrow> (string option \<times> int) list \<Rightarrow> DedupeCache" where
  "checks d [] = d"
| "checks d (call # calls) = checks (snd (check (fst call) (snd call) d)) calls"

section \<open>Strings\<close>

text \<open>
  A JavaScript string is a sequence of UTF-16 code units. The model is \<open>string\<close>, a list
  of 8-bit characters read as the code units U+0000 to U+00FF. On that range
  \<^verbatim>\<open>toLowerCase\<close> maps A to Z and the Latin-1 capitals (U+00C0 to U+00DE without the
  multiplication sign U+00D7) thirty-two places up and leaves every other unit alone.
\<close>

definition lowerChar :: "char \<Rightarrow> char" where
  "lowerChar c =
     (let n = (of_char c :: nat)
      in if (65 \<le> n \<and> n \<le> 90) \<or> (192 \<le> n \<and> n \<le> 222 \<and> n \<noteq> 215)
         then char_of (n + 32) else c)"

definition toLowerCase :: "string \<Rightarrow> string" where
  "toLowerCase s = map lowerChar s"

text \<open>The white space of \<^verbatim>\<open>trim\<close> and of the regular expression class \<^verbatim>\<open>\s\<close>: tab,
  line feed, vertical tab, form feed, carriage return, space and no-break space. The line
  terminators, which the dot of a regular expression does not match, are line feed and
  carriage return.\<close>

definition isWhiteSpace :: "char \<Rightarrow> bool" where
  "isWhiteSpace c = ((of_char c :: nat) \<in> {9, 10, 11, 12, 13, 32, 160})"

definition isLineTerminator :: "char \<Rightarrow> bool" where
  "isLineTerminator c = ((of_char c :: nat) \<in> {10, 13})"

definition trim :: "string \<Rightarrow> string" where
  "trim s = rev (dropWhile isWhiteSpace (rev (dropWhile isWhiteSpace s)))"

text \<open>\<^verbatim>\<open>s.split("\n")\<close> and \<^verbatim>\<open>lines.join("\n")\<close>.\<close>

fun splitLines :: "string \<Rightarrow> string list" where
  "splitLines [] = [[]]"
| "splitLines (c # cs) =
     (if c = CHR 0x0A then [] # splitLines cs
      else (case splitLines cs of [] \<Rightarrow> [[c]] | l # ls \<Rightarrow> (c # l) # ls))"

fun joinLines :: "string list \<Rightarrow> string" where
  "joinLines [] = []"
| "joinLines [l] = l"
| "joinLines (l # ls) = l @ CHR 0x0A # joinLines ls"

definition startsWith :: "string \<Rightarrow> string \<Rightarrow> bool" where
  "startsWith pre s = (take (length pre) s = pre)"

section \<open>Reply recipients and quoted text (threading.ts)\<close>

record ReplyRecipients =
  to :: "string list"
  cc :: "string list"

record ReplyParams =
  botEmail :: string
  originalFrom :: string
  originalTo :: "string list"
  originalCc :: "string list"
  preserveCc :: bool

text \<open>The two branches of \<^verbatim>\<open>resolveReplyRecipients\<close>, each as the source writes it: the
  first is taken when the bot's address is among the original To addresses, the second
  otherwise.\<close>

definition botInTo :: "ReplyParams \<Rightarrow> bool" where
  "botInTo p = list_ex (\<lambda>addr. toLowerCase addr = toLowerCase (botEmail p)) (originalTo p)"

definition replyBotInTo :: "ReplyParams \<Rightarrow> ReplyRecipients" where
  "replyBotInTo p =
     (let botLower = toLowerCase (botEmail p)
      in \<lparr>to = [originalFrom p],
          cc = (if preserveCc p
                then filter (\<lambda>addr. toLowerCase addr \<noteq> botLower
                                  \<and> toLowerCase addr \<noteq> toLowerCase (originalFrom p)) (originalTo p)
                   @ filter (\<lambda>addr. toLowerCase addr \<noteq> botLower
                                  \<and> toLowerCase addr \<noteq> toLowerCase (originalFrom p)) (originalCc p)
                else [])\<rparr>)"

definition replyBotInCc :: "ReplyParams \<Rightarrow> ReplyRecipients" where
  "replyBotInCc p =
     (let botLower = toLowerCase (botEmail p)
      in \<lparr>to = [originalFrom p],
          cc = (if preserveCc p
                then filter (\<lambda>addr. toLowerCase addr \<noteq> botLower
                                  \<and> toLowerCase addr \<noteq> toLowerCase (originalFrom p)) (originalTo p)
                   @ filter (\<lambda>addr. toLowerCase addr \<noteq> botLower
                                  \<and> toLowerCase addr \<noteq> toLowerCase (originalFrom p)) (originalCc p)
                else [])\<rparr>)"

definition resolveReplyRecipients :: "ReplyParams \<Rightarrow> ReplyRecipients" where
  "resolveReplyRecipients p = (if botInTo p then replyBotInTo p else replyBotInCc p)"

text \<open>The single formula of the specification, without the case distinction.\<close>

definition resolveReplyRecipients_unbranched :: "ReplyParams \<Rightarrow> ReplyRecipients" where
  "resolveReplyRecipients_unbranched p =
     \<lparr>to = [originalFrom p],
      cc = (if preserveCc p
            then filter (\<lambda>addr. toLowerCase addr \<noteq> toLowerCase (botEmail p)
                              \<and> toLowerCase addr \<noteq> toLowerCase (originalFrom p))
                   (originalTo p @ originalCc p)
            else [])\<rparr>"

text \<open>
  The three regular expressions of \<^verbatim>\<open>extractLatestContent\<close>, each tested on a trimmed
  line, which holds no line feed.

  \<^verbatim>\<open>/^On .+ wrote:$/i\<close>: the pattern is anchored at both ends and its two literals have
  fixed lengths, so a string matches exactly when it starts with \<^verbatim>\<open>On \<close> and ends with
  \<^verbatim>\<open> wrote:\<close> (letters in either case), with at least one unit in between and no line
  terminator there.

  \<^verbatim>\<open>/^-{2,}\s*Original Message/i\<close>: anchored at the start only. The run of hyphens and
  the run of white space are each followed by a unit outside their class, so the greedy
  match is the only one: all leading hyphens (at least two), all white space after them,
  then the sixteen units of \<^verbatim>\<open>Original Message\<close> in either case; anything may follow.

  \<^verbatim>\<open>/^_{2,}$/\<close>: two or more underscores and nothing else.
\<close>

definition matchesOnWrote :: "string \<Rightarrow> bool" where
  "matchesOnWrote s =
     (11 \<le> length s
      \<and> toLowerCase (take 3 s) = ''on ''
      \<and> toLowerCase (drop (length s - 7) s) = '' wrote:''
      \<and> list_all (\<lambda>c. \<not> isLineTerminator c) (take (length s - 10) (drop 3 s)))"

definition matchesOriginalMessage :: "string \<Rightarrow> bool" where
  "matchesOriginalMessage s =
     (2 \<le> length (takeWhile (\<lambda>c. c = CHR ''-'') s)
      \<and> toLowerCase (take 16 (dropWhile isWhiteSpace (dropWhile (\<lambda>c. c = CHR ''-'') s)))
          = ''original message'')"

definition matchesUnderscores :: "string \<Rightarrow> bool" where
  "matchesUnderscores s = (2 \<le> length s \<and> list_all (\<lambda>c. c = CHR ''_'') s)"

text \<open>The loop of \<^verbatim>\<open>extractLatestContent\<close>, with \<^verbatim>\<open>result\<close> as accumulator: the three
  \<^verbatim>\<open>break\<close>s return it, \<^verbatim>\<open>continue\<close> skips the line, \<^verbatim>\<open>push\<close> appends it.\<close>

fun scanLines :: "string list \<Rightarrow> string list \<Rightarrow> string list" where
  "scanLines result [] = result"
| "scanLines result (line # lines) =
     (if matchesOnWrote (trim line) then result
      else if matchesOriginalMessage (trim line) then result
      else if matchesUnderscores (trim line) then result
      else if startsWith ''>'' line then scanLines result lines
      else scanLines (result @ [line]) lines)"

definition extractLatestContent :: "string \<Rightarrow> string" where
  "extractLatestContent bodyText =
     (if bodyText = [] then []
      else trim (joinLines (scanLines [] (splitLines bodyText))))"

section \<open>The gate of inbound processing (monitor.ts)\<close>

text \<open>
  \<^verbatim>\<open>processInboundEmail\<close> up to the hand-over to the reply dispatcher. The account
  configuration fields are optional in the source (\<open>None\<close> is \<^verbatim>\<open>undefined\<close>):
  \<open>accountDmPolicy\<close> is \<^verbatim>\<open>account.config.dmPolicy ?? "allowlist"\<close> and
  \<open>accountAllowFrom\<close> is the allow-list, empty when absent, with every entry in lower case;
  \<^verbatim>\<open>DmPolicy\<close> is the plugin SDK's union of four string literals. The conversion
  \<^verbatim>\<open>htmlToPlainText\<close> wraps an external library and is a parameter. Downloads, routing
  and the dispatcher itself are external; \<open>Dispatched\<close> records what is handed to them.
\<close>

datatype DmPolicy = Pairing | Allowlist | Open | Disabled

record EmailAccount =
  account_gmailAddress :: "string option"
  config_dmPolicy :: "DmPolicy option"
  config_allowFrom :: "string list option"
  config_preserveCc :: "bool option"

record ParsedEmail =
  email_from :: string
  email_to :: "string list"
  email_cc :: "string list"
  email_bodyText :: string
  email_bodyHtml :: string
  email_attachments :: "string list"

datatype Outcome =
    SkippedSelf
  | SkippedDisabled
  | SkippedNotAllowed
  | SkippedEmpty
  | Dispatched string ReplyRecipients

definition resolveBotEmail :: "EmailAccount \<Rightarrow> string \<Rightarrow> string" where
  "resolveBotEmail account userEmail =
     (case account_gmailAddress account of
        Some a \<Rightarrow> toLowerCase a
      | None \<Rightarrow> toLowerCase userEmail)"

definition accountDmPolicy :: "EmailAccount \<Rightarrow> DmPolicy" where
  "accountDmPolicy account =
     (case config_dmPolicy account of Some p \<Rightarrow> p | None \<Rightarrow> Allowlist)"

definition accountAllowFrom :: "EmailAccount \<Rightarrow> string list" where
  "accountAllowFrom account =
     map toLowerCase (case config_allowFrom account of Some l \<Rightarrow> l | None \<Rightarrow> [])"

definition processInboundEmail ::
  "(string \<Rightarrow> string) \<Rightarrow> EmailAccount \<Rightarrow> string \<Rightarrow> ParsedEmail \<Rightarrow> Outcome" where
  "processInboundEmail htmlToPlainText account userEmail email =
     (let botEmail = resolveBotEmail account userEmail
      in if toLowerCase (email_from email) = botEmail then SkippedSelf
         else
           let dmPolicy = accountDmPolicy account;
               allowFrom = accountAllowFrom account
           in if dmPolicy = Disabled then SkippedDisabled
              else if dmPolicy \<noteq> Open \<and> 0 < length allowFrom \<and> ''*'' \<notin> set allowFrom
                      \<and> toLowerCase (email_from email) \<notin> set allowFrom
                   then SkippedNotAllowed
              else
                let bodyText = (if email_bodyText email = [] \<and> email_bodyHtml email \<noteq> []
                                then htmlToPlainText (email_bodyHtml email)
                                else email_bodyText email);
                    latestContent = extractLatestContent bodyText
                in if latestContent = [] \<and> length (email_attachments email) = 0
                   then SkippedEmpty
                   else Dispatched latestContent
                          (resolveReplyRecipients
                             \<lparr>botEmail = botEmail,
                              originalFrom = email_from email,
                              originalTo = email_to email,
                              originalCc = email_cc email,
                              preserveCc = (config_preserveCc account \<noteq> Some False)\<rparr>))"

fun isDispatched :: "Outcome \<Rightarrow> bool" where
  "isDispatched (Dispatched _ _) = True"
| "isDispatched _ = False"

section \<open>Message ids of an inbound payload (monitor.ts)\<close>

text \<open>
  The payload is an \<^verbatim>\<open>unknown\<close> JavaScript value. An object is a list of properties
  (a JavaScript object holds each name once; \<open>getProp\<close> reads the first binding of a
  name); reading a property that is not there gives \<^verbatim>\<open>undefined\<close>. The \<^verbatim>\<open>Set<string>\<close> that
  collects the ids iterates in insertion order: it is a list without repetitions, and
  \<^verbatim>\<open>add\<close> appends a string only when it is new.
\<close>

datatype json =
    JUndefined
  | JNull
  | JBool bool
  | JNum int
  | JStr string
  | JArr "json list"
  | JObj "(string \<times> json) list"

definition asRecord :: "json \<Rightarrow> (string \<times> json) list option" where
  "asRecord v = (case v of JObj props \<Rightarrow> Some props | _ \<Rightarrow> None)"

definition getProp :: "(string \<times> json) list \<Rightarrow> string \<Rightarrow> json" where
  "getProp props name = (case map_of props name of Some v \<Rightarrow> v | None \<Rightarrow> JUndefined)"

definition normalizeMessageId :: "json \<Rightarrow> string option" where
  "normalizeMessageId raw =
     (case raw of
        JStr s \<Rightarrow> (let trimmed = trim s in if trimmed \<noteq> [] then Some trimmed else None)
      | _ \<Rightarrow> None)"

definition set_add :: "string \<Rightarrow> string list \<Rightarrow> string list" where
  "set_add x target = (if x \<in> set target then target else target @ [x])"

definition pushMessageId :: "string list \<Rightarrow> json \<Rightarrow> string list" where
  "pushMessageId target raw =
     (case normalizeMessageId raw of Some i \<Rightarrow> set_add i target | None \<Rightarrow> target)"

definition pushMessage :: "string list \<Rightarrow> json \<Rightarrow> string list" where
  "pushMessage target message =
     (case asRecord message of
        None \<Rightarrow> target
      | Some messageRec \<Rightarrow>
          pushMessageId (pushMessageId target (getProp messageRec ''messageId''))
            (getProp messageRec ''id''))"

definition collectMessageIdsFromNode :: "string list \<Rightarrow> json \<Rightarrow> string list" where
  "collectMessageIdsFromNode target node =
     (case asRecord node of
        None \<Rightarrow> target
      | Some rec \<Rightarrow>
          let t1 = pushMessageId target (getProp rec ''messageId'');
              t2 = pushMessageId t1 (getProp rec ''id'');
              t3 = (case getProp rec ''messageIds'' of
                      JArr vs \<Rightarrow> foldl pushMessageId t2 vs
                    | _ \<Rightarrow> t2)
          in (case getProp rec ''messages'' of
                JArr ms \<Rightarrow> foldl pushMessage t3 ms
              | _ \<Rightarrow> t3))"

definition extractInboundMessageIds :: "json \<Rightarrow> string list" where
  "extractInboundMessageIds payload =
     (let ids = collectMessageIdsFromNode [] payload
      in case asRecord payload of
           Some rec \<Rightarrow> collectMessageIdsFromNode ids (getProp rec ''data'')
         | None \<Rightarrow> ids)"

text \<open>The places the ids are gathered from, in the order the code visits them: the raw
  candidate values of one node, and of the payload with its \<^verbatim>\<open>data\<close> node.\<close>

definition messageCandidates :: "json \<Rightarrow> json list" where
  "messageCandidates message =
     (case asRecord message of
        None \<Rightarrow> []
      | Some messageRec \<Rightarrow> [getProp messageRec ''messageId'', getProp messageRec ''id''])"

definition nodeCandidates :: "json \<Rightarrow> json list" where
  "nodeCandidates node =
     (case asRecord node of
        None \<Rightarrow> []
      | Some rec \<Rightarrow>
          [getProp rec ''messageId'', getProp rec ''id'']
          @ (case getProp rec ''messageIds'' of JArr vs \<Rightarrow> vs | _ \<Rightarrow> [])
          @ (case getProp rec ''messages'' of
               JArr ms \<Rightarrow> concat (map messageCandidates ms)
             | _ \<Rightarrow> []))"

definition payloadCandidates :: "json \<Rightarrow> json list" where
  "payloadCandidates payload =
     nodeCandidates payload
     @ (case asRecord payload of
          Some rec \<Rightarrow> nodeCandidates (getProp rec ''data'')
        | None \<Rightarrow> [])"

section \<open>Properties of the dedupe cache\<close>

lemma length_map_delete_le: "length (map_delete k c) \<le> length c"
  by (simp add: map_delete_def)

lemma map_delete_absent: "k \<notin> fst ` set c \<Longrightarrow> map_delete k c = c"
  by (induction c) (auto simp: map_delete_def)

lemma map_set_absent: "k \<notin> fst ` set c \<Longrightarrow> map_set k v c = c @ [(k, v)]"
  by (induction c) auto

lemma keys_map_delete: "fst ` set (map_delete k c) = fst ` set c - {k}"
  by (auto simp: map_delete_def)

lemma touch_eq: "touch k now c = map_delete k c @ [(k, now)]"
  by (simp add: touch_def map_set_absent keys_map_delete)

lemma length_map_delete_present: "k \<in> fst ` set c \<Longrightarrow> length (map_delete k c) < length c"
  unfolding map_delete_def by (auto intro: length_filter_less)

lemma set_map_delete_subset: "set (map_delete k c) \<subseteq> set c"
  by (auto simp: map_delete_def)

lemma set_pruneExpired_subset: "set (pruneExpired cutoff es c) \<subseteq> set c"
proof (induction es arbitrary: c)
  case Nil
  show ?case by simp
next
  case (Cons e es)
  show ?case using Cons.IH set_map_delete_subset by (simp, blast)
qed

lemma pruneExpired_none: "\<forall>e\<in>set es. \<not> snd e < cutoff \<Longrightarrow> pruneExpired cutoff es c = c"
  by (induction es arbitrary: c) auto

lemma pruneOldest_stop: "\<not> m < int (length c) \<Longrightarrow> pruneOldest m c = c"
  by (simp add: pruneOldest.simps [of m c])

lemma pruneOldest_Nil: "pruneOldest m [] = []"
  by (simp add: pruneOldest.simps [of m "[]"])

lemma pruneOldest_break: "fst e = [] \<Longrightarrow> pruneOldest m (e # es) = e # es"
  by (simp add: pruneOldest.simps [of m "e # es"])

lemma pruneOldest_step:
  "m < int (length (e # es)) \<Longrightarrow> fst e \<noteq> [] \<Longrightarrow>
   pruneOldest m (e # es) = pruneOldest m (map_delete (fst e) (e # es))"
  by (simp add: pruneOldest.simps [of m "e # es"])

lemma set_pruneOldest_subset: "set (pruneOldest m c) \<subseteq> set c"
proof (induction m c rule: pruneOldest.induct)
  case (1 m c)
  show ?case
  proof (cases "m < int (length c)")
    case False
    then show ?thesis by (simp add: pruneOldest_stop)
  next
    case True
    show ?thesis
    proof (cases c)
      case Nil
      then show ?thesis by (simp add: pruneOldest_Nil)
    next
      case c: (Cons e es)
    show ?thesis
    proof (cases "fst e = []")
      case True
      then show ?thesis using c by (simp add: pruneOldest_break)
    next
      case False
      have "set (pruneOldest m (map_delete (fst e) c)) \<subseteq> set (map_delete (fst e) c)"
        using \<open>m < int (length c)\<close> c False by (rule "1.IH")
      also have "\<dots> \<subseteq> set c" by (rule set_map_delete_subset)
      finally show ?thesis
        using pruneOldest_step [of m e es] \<open>m < int (length c)\<close> c False by simp
    qed
    qed
  qed
qed

lemma length_pruneOldest_le:
  "0 \<le> m \<Longrightarrow> [] \<notin> fst ` set c \<Longrightarrow> int (length (pruneOldest m c)) \<le> m"
proof (induction m c rule: pruneOldest.induct)
  case (1 m c)
  show ?case
  proof (cases "m < int (length c)")
    case False
    then show ?thesis by (simp add: pruneOldest_stop)
  next
    case True
    then obtain e es where c: "c = e # es" using "1.prems"(1) by (cases c) auto
    have ne: "fst e \<noteq> []" using "1.prems"(2) c by force
    have "[] \<notin> fst ` set (map_delete (fst e) c)"
      using "1.prems"(2) by (simp add: keys_map_delete)
    with True c ne "1.prems"(1)
    have "int (length (pruneOldest m (map_delete (fst e) c))) \<le> m"
      by (intro "1.IH")
    then show ?thesis
      using pruneOldest_step [of m e es] True c ne by simp
  qed
qed

lemma check_maxSize: "maxSize (snd (check key now d)) = maxSize d"
  by (simp add: check_def split: option.splits)

lemma check_ttlMs: "ttlMs (snd (check key now d)) = ttlMs d"
  by (simp add: check_def split: option.splits)

lemma map_get_Some_key: "map_get c k = Some v \<Longrightarrow> k \<in> fst ` set c"
  unfolding map_get_def by (metis map_of_eq_None_iff option.distinct(1))

lemma check_bounded:
  assumes "0 \<le> maxSize d" "[] \<notin> fst ` set (cache d)" "int (length (cache d)) \<le> maxSize d"
  shows "[] \<notin> fst ` set (cache (snd (check key now d))) \<and>
         int (length (cache (snd (check key now d)))) \<le> maxSize d"
proof (cases "key = None \<or> key = Some []")
  case True
  then show ?thesis using assms by (auto simp: check_def)
next
  case False
  then obtain k where k: "key = Some k" "k \<noteq> []" by auto
  let ?t = "touch k now (cache d)"
  have tk: "[] \<notin> fst ` set ?t"
    using assms(2) k(2) by (auto simp: touch_eq keys_map_delete)
  have pe: "[] \<notin> fst ` set (if ttlMs d > 0 then pruneExpired (now - ttlMs d) ?t ?t else ?t)"
    using tk set_pruneExpired_subset [of "now - ttlMs d" ?t ?t] by auto
  have pk: "[] \<notin> fst ` set (prune now d ?t)"
    using pe set_pruneOldest_subset unfolding prune_def by fast
  have pl: "int (length (prune now d ?t)) \<le> maxSize d"
    unfolding prune_def using assms(1) pe by (rule length_pruneOldest_le)
  show ?thesis
  proof (cases "map_get (cache d) k")
    case None
    then show ?thesis using k pk pl by (simp add: check_def)
  next
    case (Some existing)
    have "length (map_delete k (cache d)) < length (cache d)"
      using Some by (intro length_map_delete_present map_get_Some_key)
    then have "int (length ?t) \<le> maxSize d" using assms(3) by (simp add: touch_eq)
    then show ?thesis using k Some pk pl tk by (simp add: check_def)
  qed
qed

lemma checks_bounded:
  "0 \<le> maxSize d \<Longrightarrow> [] \<notin> fst ` set (cache d) \<Longrightarrow> int (length (cache d)) \<le> maxSize d \<Longrightarrow>
   int (length (cache (checks d calls))) \<le> maxSize d"
proof (induction calls arbitrary: d)
  case Nil
  then show ?case by simp
next
  case (Cons call calls)
  let ?d = "snd (check (fst call) (snd call) d)"
  have b: "[] \<notin> fst ` set (cache ?d) \<and> int (length (cache ?d)) \<le> maxSize d"
    using Cons.prems by (intro check_bounded)
  have "int (length (cache (checks ?d calls))) \<le> maxSize ?d"
    using b Cons.prems(1) by (intro Cons.IH) (simp_all add: check_maxSize)
  then show ?case by (simp add: check_maxSize)
qed

lemma map_get_newest: "k \<notin> fst ` set xs \<Longrightarrow> map_get (xs @ [(k, v)]) k = Some v"
  by (induction xs) (auto simp: map_get_def)

lemma pruneExpired_keeps_newest:
  "k \<notin> fst ` set xs \<Longrightarrow> \<forall>e\<in>set es. snd e < cutoff \<longrightarrow> fst e \<noteq> k \<Longrightarrow>
   \<exists>ys. pruneExpired cutoff es (xs @ [(k, v)]) = ys @ [(k, v)] \<and> k \<notin> fst ` set ys"
proof (induction es arbitrary: xs)
  case Nil
  then show ?case by simp
next
  case (Cons e es)
  show ?case
  proof (cases "snd e < cutoff")
    case False
    then show ?thesis using Cons.IH [of xs] Cons.prems by simp
  next
    case True
    then have ne: "fst e \<noteq> k" using Cons.prems(2) by simp
    have "k \<notin> fst ` set (map_delete (fst e) xs)"
      using Cons.prems(1) by (simp add: keys_map_delete)
    then have "\<exists>ys. pruneExpired cutoff es (map_delete (fst e) xs @ [(k, v)]) = ys @ [(k, v)]
                 \<and> k \<notin> fst ` set ys"
      using Cons.prems(2) by (intro Cons.IH) simp_all
    moreover have "map_delete (fst e) (xs @ [(k, v)]) = map_delete (fst e) xs @ [(k, v)]"
      using ne by (simp add: map_delete_def)
    ultimately show ?thesis using True by simp
  qed
qed

lemma pruneOldest_keeps_newest:
  "1 \<le> m \<Longrightarrow> k \<notin> fst ` set xs \<Longrightarrow>
   \<exists>ys. pruneOldest m (xs @ [(k, v)]) = ys @ [(k, v)] \<and> k \<notin> fst ` set ys"
proof (induction xs rule: length_induct)
  case (1 xs)
  show ?case
  proof (cases xs)
    case Nil
    then show ?thesis using "1.prems"(1) by (simp add: pruneOldest_stop)
  next
    case (Cons e es)
    show ?thesis
    proof (cases "m < int (length (xs @ [(k, v)])) \<and> fst e \<noteq> []")
      case False
      then have "pruneOldest m (xs @ [(k, v)]) = xs @ [(k, v)]"
        using Cons pruneOldest_stop [of m "xs @ [(k, v)]"] pruneOldest_break [of e m "es @ [(k, v)]"]
        by auto
      then show ?thesis using "1.prems"(2) by blast
    next
      case True
      have ne: "fst e \<noteq> k" using "1.prems"(2) Cons by auto
      have del: "map_delete (fst e) (xs @ [(k, v)]) = map_delete (fst e) es @ [(k, v)]"
        using ne Cons by (simp add: map_delete_def)
      have step: "pruneOldest m (xs @ [(k, v)]) = pruneOldest m (map_delete (fst e) es @ [(k, v)])"
        using True Cons pruneOldest_step [of m e "es @ [(k, v)]"] del by simp
      have "length (map_delete (fst e) es) < length xs"
        using Cons length_map_delete_le [of "fst e" es] by simp
      moreover have "k \<notin> fst ` set (map_delete (fst e) es)"
        using "1.prems"(2) Cons by (auto simp: keys_map_delete)
      ultimately have "\<exists>ys. pruneOldest m (map_delete (fst e) es @ [(k, v)]) = ys @ [(k, v)]
                 \<and> k \<notin> fst ` set ys"
        using "1.IH" "1.prems"(1) by blast
      then show ?thesis using step by simp
    qed
  qed
qed

lemma prune_keeps_newest:
  assumes "1 \<le> maxSize d" "k \<notin> fst ` set xs"
  shows "map_get (prune now d (xs @ [(k, now)])) k = Some now"
proof -
  let ?c = "xs @ [(k, now)]"
  have "\<exists>ys. (if ttlMs d > 0 then pruneExpired (now - ttlMs d) ?c ?c else ?c) = ys @ [(k, now)]
          \<and> k \<notin> fst ` set ys"
  proof (cases "ttlMs d > 0")
    case False
    then show ?thesis using assms(2) by auto
  next
    case True
    have "\<forall>e\<in>set ?c. snd e < now - ttlMs d \<longrightarrow> fst e \<noteq> k"
      using True assms(2) by (auto simp: image_iff)
    then show ?thesis
      using True pruneExpired_keeps_newest [OF assms(2), of ?c "now - ttlMs d" now] by simp
  qed
  then obtain ys where ys: "(if ttlMs d > 0 then pruneExpired (now - ttlMs d) ?c ?c else ?c) = ys @ [(k, now)]"
     "k \<notin> fst ` set ys" by blast
  obtain zs where "pruneOldest (maxSize d) (ys @ [(k, now)]) = zs @ [(k, now)]" "k \<notin> fst ` set zs"
    using pruneOldest_keeps_newest [OF assms(1) ys(2), of now] by blast
  then show ?thesis unfolding prune_def ys(1) by (simp add: map_get_newest)
qed

lemma check_records:
  assumes "k \<noteq> []" "1 \<le> maxSize d"
  shows "map_get (cache (snd (check (Some k) now d))) k = Some now"
proof -
  have nk: "k \<notin> fst ` set (map_delete k (cache d))" by (simp add: keys_map_delete)
  have a: "map_get (touch k now (cache d)) k = Some now"
    unfolding touch_eq using nk by (rule map_get_newest)
  have b: "map_get (prune now d (touch k now (cache d))) k = Some now"
    unfolding touch_eq using assms(2) nk by (rule prune_keeps_newest)
  show ?thesis using assms(1) a b by (simp add: check_def split: option.splits)
qed

lemma map_get_absent: "k \<notin> fst ` set c \<Longrightarrow> map_get c k = None"
  by (simp add: map_get_def map_of_eq_None_iff)

lemma check_insert_room:
  assumes "k \<noteq> []" and "k \<notin> fst ` set (cache d)"
    and "0 < ttlMs d \<longrightarrow> (\<forall>e\<in>set (cache d). \<not> snd e < now - ttlMs d)"
    and "int (length (cache d)) < maxSize d"
  shows "check (Some k) now d = (False, d\<lparr>cache := cache d @ [(k, now)]\<rparr>)"
proof -
  let ?c = "cache d @ [(k, now)]"
  have t: "touch k now (cache d) = ?c"
    using assms(2) by (simp add: touch_eq map_delete_absent)
  have e: "(if ttlMs d > 0 then pruneExpired (now - ttlMs d) ?c ?c else ?c) = ?c"
    using assms(3) by (auto simp: pruneExpired_none)
  have "prune now d ?c = ?c"
    unfolding prune_def e using assms(4) by (simp add: pruneOldest_stop)
  then show ?thesis
    using assms(1,2) t by (simp add: check_def map_get_absent)
qed

lemma check_insert_full:
  assumes "k \<noteq> []" and "k \<notin> fst ` set (cache d)"
    and "0 < ttlMs d \<longrightarrow> (\<forall>e\<in>set (cache d). \<not> snd e < now - ttlMs d)"
    and "int (length (cache d)) = maxSize d"
    and "distinct (map fst (cache d))" and "[] \<notin> fst ` set (cache d)"
  shows "check (Some k) now d = (False, d\<lparr>cache := tl (cache d @ [(k, now)])\<rparr>)"
proof -
  let ?c = "cache d @ [(k, now)]"
  have t: "touch k now (cache d) = ?c"
    using assms(2) by (simp add: touch_eq map_delete_absent)
  have e: "(if ttlMs d > 0 then pruneExpired (now - ttlMs d) ?c ?c else ?c) = ?c"
    using assms(3) by (auto simp: pruneExpired_none)
  obtain e0 es where c: "?c = e0 # es" by (cases ?c) auto
  have dist: "distinct (map fst ?c)" using assms(2,5) by auto
  have "[] \<notin> fst ` set ?c" using assms(1,6) by auto
  then have ne: "fst e0 \<noteq> []" unfolding c by auto
  have "length ?c = Suc (length es)" unfolding c by simp
  then have len: "int (length es) = maxSize d" using assms(4) by simp
  have "fst e0 \<notin> fst ` set es" using dist c by simp
  then have del: "map_delete (fst e0) (e0 # es) = es"
    by (simp add: map_delete_def map_delete_absent [unfolded map_delete_def])
  have "pruneOldest (maxSize d) (e0 # es) = pruneOldest (maxSize d) es"
    using pruneOldest_step [of "maxSize d" e0 es] ne len del by simp
  also have "\<dots> = es" using len by (simp add: pruneOldest_stop)
  finally have "pruneOldest (maxSize d) ?c = tl ?c"
    using c by simp
  then have "prune now d ?c = tl ?c"
    unfolding prune_def e .
  then show ?thesis
    using assms(1,2) t by (simp add: check_def map_get_absent)
qed

lemma checks_append: "checks d (xs @ ys) = checks (checks d xs) ys"
  by (induction xs arbitrary: d) auto

lemma checks_fill:
  assumes "length ks = length ts" and "distinct ks" and "[] \<notin> set ks"
    and "set ks \<inter> fst ` set (cache d) = {}"
    and "\<forall>e\<in>set (cache d). lo \<le> snd e" and "\<forall>t\<in>set ts. lo \<le> t \<and> t \<le> hi"
    and "ttlMs d \<le> 0 \<or> hi - lo < ttlMs d"
    and "int (length (cache d) + length ks) \<le> maxSize d"
  shows "checks d (zip (map Some ks) ts) = d\<lparr>cache := cache d @ zip ks ts\<rparr>"
  using assms
proof (induction ks arbitrary: ts d)
  case Nil
  then show ?case by simp
next
  case (Cons k ks)
  then obtain t ts' where ts: "ts = t # ts'" by (cases ts) auto
  let ?d = "d\<lparr>cache := cache d @ [(k, t)]\<rparr>"
  have "0 < ttlMs d \<longrightarrow> (\<forall>e\<in>set (cache d). \<not> snd e < t - ttlMs d)"
    using Cons.prems(5,6,7) ts by fastforce
  then have step: "check (Some k) t d = (False, ?d)"
    using Cons.prems(2,3,4,8) by (intro check_insert_room) auto
  have "checks ?d (zip (map Some ks) ts') = ?d\<lparr>cache := cache ?d @ zip ks ts'\<rparr>"
  proof (rule Cons.IH)
    show "length ks = length ts'" using Cons.prems(1) ts by simp
    show "distinct ks" using Cons.prems(2) by simp
    show "[] \<notin> set ks" using Cons.prems(3) by simp
    show "set ks \<inter> fst ` set (cache ?d) = {}" using Cons.prems(2,4) by auto
    show "\<forall>e\<in>set (cache ?d). lo \<le> snd e" using Cons.prems(5,6) ts by auto
    show "\<forall>t\<in>set ts'. lo \<le> t \<and> t \<le> hi" using Cons.prems(6) ts by simp
    show "ttlMs ?d \<le> 0 \<or> hi - lo < ttlMs ?d" using Cons.prems(7) by simp
    show "int (length (cache ?d) + length ks) \<le> maxSize ?d" using Cons.prems(8) by simp
  qed
  then show ?case using step ts by simp
qed

lemma strict_sorted_hd_le:
  fixes ts :: "int list"
  shows "sorted_wrt (<) ts \<Longrightarrow> t \<in> set ts \<Longrightarrow> hd ts \<le> t"
  by (cases ts) auto

lemma strict_sorted_le_last:
  fixes ts :: "int list"
  shows "sorted_wrt (<) ts \<Longrightarrow> t \<in> set ts \<Longrightarrow> t \<le> last ts"
proof (induction ts)
  case Nil
  then show ?case by simp
next
  case (Cons x xs)
  show ?case
  proof (cases "xs = []")
    case True
    then show ?thesis using Cons.prems by simp
  next
    case False
    then have "last xs \<in> set xs" by simp
    then have "x < last xs" using Cons.prems(1) by simp
    moreover have "t \<in> set xs \<Longrightarrow> t \<le> last xs" using Cons by simp
    ultimately show ?thesis using Cons.prems(2) False by auto
  qed
qed

lemma checks_overflow:
  assumes len: "length ks = nat (maxSize d) + 1" "length ts = length ks"
    and ks: "distinct ks" "[] \<notin> set ks"
    and win: "\<forall>t\<in>set ts. lo \<le> t \<and> t \<le> hi" "ttlMs d \<le> 0 \<or> hi - lo < ttlMs d"
    and start: "cache d = []" "0 \<le> maxSize d"
  shows "checks d (zip (map Some ks) ts) = d\<lparr>cache := zip (tl ks) (tl ts)\<rparr>"
proof -
  have ne: "ks \<noteq> []" "ts \<noteq> []" using len by auto
  let ?ks = "butlast ks" and ?ts = "butlast ts"
  let ?d = "d\<lparr>cache := zip ?ks ?ts\<rparr>"
  have split: "zip (map Some ks) ts = zip (map Some ?ks) ?ts @ [(Some (last ks), last ts)]"
  proof -
    have "zip (map Some ks) ts = zip (map Some (?ks @ [last ks])) (?ts @ [last ts])"
      using ne by simp
    also have "\<dots> = zip (map Some ?ks) ?ts @ [(Some (last ks), last ts)]"
      using len by (subst map_append, subst zip_append) simp_all
    finally show ?thesis .
  qed
  have zsplit: "zip ks ts = zip ?ks ?ts @ [(last ks, last ts)]"
  proof -
    have "zip ks ts = zip (?ks @ [last ks]) (?ts @ [last ts])" using ne by simp
    also have "\<dots> = zip ?ks ?ts @ [(last ks, last ts)]"
      using len by (subst zip_append) simp_all
    finally show ?thesis .
  qed
  have fill: "checks d (zip (map Some ?ks) ?ts) = ?d"
  proof -
    have "checks d (zip (map Some ?ks) ?ts) = d\<lparr>cache := cache d @ zip ?ks ?ts\<rparr>"
    proof (rule checks_fill [where lo = lo and hi = hi])
      show "length ?ks = length ?ts" using len by simp
      show "distinct ?ks" using ks(1) by (rule distinct_butlast)
      show "[] \<notin> set ?ks" using ks(2) in_set_butlastD by fast
      show "set ?ks \<inter> fst ` set (cache d) = {}" using start(1) by simp
      show "\<forall>e\<in>set (cache d). lo \<le> snd e" using start(1) by simp
      show "\<forall>t\<in>set ?ts. lo \<le> t \<and> t \<le> hi" using win(1) in_set_butlastD by fast
      show "ttlMs d \<le> 0 \<or> hi - lo < ttlMs d" by (rule win(2))
      show "int (length (cache d) + length ?ks) \<le> maxSize d" using len start by simp
    qed
    then show ?thesis using start(1) by simp
  qed
  have "map fst (zip ?ks ?ts) = ?ks" using len by (intro map_fst_zip) simp
  then have keys: "fst ` set (zip ?ks ?ts) = set ?ks" by (metis set_map)
  have "check (Some (last ks)) (last ts) ?d = (False, ?d\<lparr>cache := tl (cache ?d @ [(last ks, last ts)])\<rparr>)"
  proof (rule check_insert_full)
    have "last ks \<in> set ks" using ne(1) by simp
    then show "last ks \<noteq> []" using ks(2) by auto
    have "distinct (?ks @ [last ks])" using ks(1) ne(1) by simp
    then have "last ks \<notin> set ?ks" by (simp del: append_butlast_last_id)
    then show "last ks \<notin> fst ` set (cache ?d)" using keys by simp
    show "0 < ttlMs ?d \<longrightarrow> (\<forall>e\<in>set (cache ?d). \<not> snd e < last ts - ttlMs ?d)"
    proof (intro impI ballI)
      fix e assume "0 < ttlMs ?d" "e \<in> set (cache ?d)"
      then have "e \<in> set (zip ?ks ?ts)" by simp
      then have "snd e \<in> set ?ts" by (metis set_zip_rightD prod.collapse)
      then have "snd e \<in> set ts" by (rule in_set_butlastD)
      then have a: "lo \<le> snd e" using win(1) by blast
      have "last ts \<in> set ts" using ne(2) by simp
      then have b: "last ts \<le> hi" using win(1) by blast
      have "hi - lo < ttlMs d" using win(2) \<open>0 < ttlMs ?d\<close> by simp
      then show "\<not> snd e < last ts - ttlMs ?d" using a b by simp
    qed
    show "int (length (cache ?d)) = maxSize ?d" using len start(2) by simp
    show "distinct (map fst (cache ?d))"
      using len ks(1) by (simp add: distinct_butlast)
    have "[] \<notin> set ?ks" using ks(2) in_set_butlastD by fast
    then show "[] \<notin> fst ` set (cache ?d)" using keys by simp
  qed
  then have "checks ?d [(Some (last ks), last ts)] = d\<lparr>cache := tl (zip ks ts)\<rparr>"
    using zsplit by simp
  moreover have "tl (zip ks ts) = zip (tl ks) (tl ts)"
    using ne by (cases ks; cases ts) simp_all
  ultimately show ?thesis using split fill by (simp add: checks_append)
qed

subsection \<open>The claims about the cache\<close>

text \<open>
  C1, as amended. For a cache created with a positive \<^verbatim>\<open>ttlMs\<close> and a \<^verbatim>\<open>maxSize\<close> of at
  least one, in any state of its store: after \<^verbatim>\<open>check(K, t)\<close> with a non-empty key, the
  next call \<^verbatim>\<open>check(K, u)\<close> returns true exactly when \<open>u - t < ttlMs\<close>, and false when
  \<open>u - t \<ge> ttlMs\<close>.
\<close>

theorem check_twice:
  assumes "k \<noteq> []" and "0 < options_ttlMs options" and "1 \<le> options_maxSize options"
  shows "fst (check (Some k) u (snd (check (Some k) t ((createDedupeCache options)\<lparr>cache := c\<rparr>))))
         = (u - t < options_ttlMs options)"
proof -
  let ?d = "(createDedupeCache options)\<lparr>cache := c\<rparr>"
  let ?d1 = "snd (check (Some k) t ?d)"
  have m: "1 \<le> maxSize ?d" using assms(3) by (simp add: createDedupeCache_def)
  have g: "map_get (cache ?d1) k = Some t" using assms(1) m by (rule check_records)
  have t: "ttlMs ?d1 = options_ttlMs options"
    using assms(2) by (simp add: check_ttlMs createDedupeCache_def)
  show ?thesis using assms(1,2) g t by (simp add: check_def)
qed

theorem check_twice_witness:
  "''a'' \<noteq> [] \<and> 0 < options_ttlMs \<lparr>options_ttlMs = 10, options_maxSize = 1\<rparr>
   \<and> 1 \<le> options_maxSize \<lparr>options_ttlMs = 10, options_maxSize = 1\<rparr>
   \<and> fst (check (Some ''a'') 6 (snd (check (Some ''a'') 5
          ((createDedupeCache \<lparr>options_ttlMs = 10, options_maxSize = 1\<rparr>)\<lparr>cache := []\<rparr>))))
   \<and> \<not> fst (check (Some ''a'') 15 (snd (check (Some ''a'') 5
          ((createDedupeCache \<lparr>options_ttlMs = 10, options_maxSize = 1\<rparr>)\<lparr>cache := []\<rparr>))))"
  using check_twice [where k = "''a''" and options = "\<lparr>options_ttlMs = 10, options_maxSize = 1\<rparr>"
      and t = 5 and u = 6 and c = "[]"]
    check_twice [where k = "''a''" and options = "\<lparr>options_ttlMs = 10, options_maxSize = 1\<rparr>"
      and t = 5 and u = 15 and c = "[]"]
  by simp

text \<open>
  C1 as stated fails for two configurations. With \<^verbatim>\<open>maxSize = 0\<close> the first call evicts
  the key it has just recorded, so the second call one millisecond later returns false
  although \<open>6 - 5 < 10\<close>. With \<^verbatim>\<open>ttlMs = 0\<close> entries never expire, so the second call
  returns true although \<open>6 - 5 \<ge> 0\<close>.
\<close>

theorem check_twice_counterexample:
  "(6::int) - 5 < options_ttlMs \<lparr>options_ttlMs = 10, options_maxSize = 0\<rparr>
   \<and> \<not> fst (check (Some ''a'') 6 (snd (check (Some ''a'') 5
          (createDedupeCache \<lparr>options_ttlMs = 10, options_maxSize = 0\<rparr>))))
   \<and> (6::int) - 5 \<ge> options_ttlMs \<lparr>options_ttlMs = 0, options_maxSize = 5\<rparr>
   \<and> fst (check (Some ''a'') 6 (snd (check (Some ''a'') 5
          (createDedupeCache \<lparr>options_ttlMs = 0, options_maxSize = 5\<rparr>))))"
  by code_simp

text \<open>
  C4. Start from the empty cache and call \<^verbatim>\<open>check\<close> on \<open>maxSize + 1\<close> distinct non-empty
  keys \<open>ks\<close> at strictly increasing times \<open>ts\<close>, all within the TTL window (or with expiry
  switched off by \<^verbatim>\<open>ttlMs = 0\<close>). Then a further check of the first key returns false, and a
  further check of any of the other \<open>maxSize\<close> keys, at a time \<open>t\<close> within that key's
  window, returns true.
\<close>

theorem evicts_oldest_keeps_recent:
  assumes "length ks = nat (max 0 (options_maxSize options)) + 1" and "length ts = length ks"
    and "distinct ks" and "[] \<notin> set ks" and "sorted_wrt (<) ts"
    and "options_ttlMs options \<le> 0 \<or> last ts - hd ts < options_ttlMs options"
  shows "fst (check (Some (hd ks)) t
              (checks (createDedupeCache options) (zip (map Some ks) ts))) = False
       \<and> (\<forall>i. 1 \<le> i \<and> i < length ks \<and>
               (options_ttlMs options \<le> 0 \<or> t - ts ! i < options_ttlMs options) \<longrightarrow>
             fst (check (Some (ks ! i)) t
                   (checks (createDedupeCache options) (zip (map Some ks) ts))) = True)"
proof -
  let ?init = "createDedupeCache options"
  let ?d = "?init\<lparr>cache := zip (tl ks) (tl ts)\<rparr>"
  have ne: "ks \<noteq> []" "ts \<noteq> []" using assms(1,2) by auto
  have run: "checks ?init (zip (map Some ks) ts) = ?d"
  proof (rule checks_overflow [where lo = "hd ts" and hi = "last ts"])
    show "length ks = nat (maxSize ?init) + 1" using assms(1) by (simp add: createDedupeCache_def)
    show "length ts = length ks" by (rule assms(2))
    show "distinct ks" by (rule assms(3))
    show "[] \<notin> set ks" by (rule assms(4))
    show "\<forall>t\<in>set ts. hd ts \<le> t \<and> t \<le> last ts"
      using assms(5) strict_sorted_hd_le strict_sorted_le_last by blast
    show "ttlMs ?init \<le> 0 \<or> last ts - hd ts < ttlMs ?init"
      using assms(6) by (auto simp: createDedupeCache_def)
    show "cache ?init = []" by (simp add: createDedupeCache_def)
    show "0 \<le> maxSize ?init" by (simp add: createDedupeCache_def)
  qed
  have "map fst (zip (tl ks) (tl ts)) = tl ks" using assms(2) by (intro map_fst_zip) simp
  then have keys: "fst ` set (zip (tl ks) (tl ts)) = set (tl ks)" by (metis set_map)
  have "hd ks \<notin> set (tl ks)" using assms(3) ne(1) by (cases ks) auto
  then have "map_get (cache ?d) (hd ks) = None" using keys by (simp add: map_get_absent)
  then have first: "fst (check (Some (hd ks)) t ?d) = False"
    by (simp add: check_def)
  have rest: "fst (check (Some (ks ! i)) t ?d) = True"
    if i: "1 \<le> i" "i < length ks"
      and w: "options_ttlMs options \<le> 0 \<or> t - ts ! i < options_ttlMs options" for i
  proof -
    obtain j where j: "i = Suc j" using i(1) by (cases i) auto
    have "map_of (zip (tl ks) (tl ts)) (tl ks ! j) = Some (tl ts ! j)"
      using assms(2,3) i(2) j by (intro map_of_zip_nth) (simp_all add: distinct_tl)
    then have g: "map_get (cache ?d) (ks ! i) = Some (ts ! i)"
      using j i(2) assms(2) ne by (simp add: map_get_def nth_tl)
    have "ks ! i \<in> set ks" using i(2) by simp
    then have k: "ks ! i \<noteq> []" using assms(4) by auto
    have "ttlMs ?d \<le> 0 \<or> t - ts ! i < ttlMs ?d"
      using w by (auto simp: createDedupeCache_def)
    then show ?thesis using g k by (simp add: check_def)
  qed
  show ?thesis unfolding run using first rest by blast
qed

theorem evicts_oldest_keeps_recent_witness:
  "\<not> fst (check (Some ''a'') 4
         (checks (createDedupeCache \<lparr>options_ttlMs = 100, options_maxSize = 2\<rparr>)
            (zip (map Some [''a'', ''b'', ''c'']) [1, 2, 3])))
   \<and> fst (check (Some ''b'') 4
         (checks (createDedupeCache \<lparr>options_ttlMs = 100, options_maxSize = 2\<rparr>)
            (zip (map Some [''a'', ''b'', ''c'']) [1, 2, 3])))
   \<and> fst (check (Some ''c'') 4
         (checks (createDedupeCache \<lparr>options_ttlMs = 100, options_maxSize = 2\<rparr>)
            (zip (map Some [''a'', ''b'', ''c'']) [1, 2, 3])))"
proof -
  let ?o = "\<lparr>options_ttlMs = 100, options_maxSize = 2\<rparr>"
  let ?ks = "[''a'', ''b'', ''c'']"
  let ?ts = "[1, 2, 3 :: int]"
  have h1: "length ?ks = nat (max 0 (options_maxSize ?o)) + 1" by simp
  have h2: "length ?ts = length ?ks" by simp
  have h3: "distinct ?ks" by simp
  have h4: "[] \<notin> set ?ks" by simp
  have h5: "sorted_wrt (<) ?ts" by simp
  have h6: "options_ttlMs ?o \<le> 0 \<or> last ?ts - hd ?ts < options_ttlMs ?o" by simp
  note th = evicts_oldest_keeps_recent [OF h1 h2 h3 h4 h5 h6, of 4]
  have a: "\<not> fst (check (Some ''a'') 4 (checks (createDedupeCache ?o) (zip (map Some ?ks) ?ts)))"
    using th by simp
  have b: "fst (check (Some (?ks ! 1)) 4 (checks (createDedupeCache ?o) (zip (map Some ?ks) ?ts)))"
    using th [THEN conjunct2, rule_format, of 1] by simp
  have c: "fst (check (Some (?ks ! 2)) 4 (checks (createDedupeCache ?o) (zip (map Some ?ks) ?ts)))"
    using th [THEN conjunct2, rule_format, of 2] by simp
  show ?thesis using a b c by simp
qed

text \<open>
  C8. A call of \<^verbatim>\<open>check\<close> with an absent key (\<^verbatim>\<open>undefined\<close>, \<^verbatim>\<open>null\<close>) or with the empty
  string returns false and leaves the cache as it was, whatever the time and the state.
\<close>

theorem check_empty_key_noop:
  "check None now d = (False, d) \<and> check (Some []) now d = (False, d)"
  by (simp add: check_def)

theorem check_empty_key_noop_witness:
  "check None 7 (createDedupeCache \<lparr>options_ttlMs = 10, options_maxSize = 1\<rparr>)
     = (False, \<lparr>ttlMs = 10, maxSize = 1, cache = []\<rparr>)
   \<and> check (Some []) 7 (createDedupeCache \<lparr>options_ttlMs = 10, options_maxSize = 1\<rparr>)
     = (False, \<lparr>ttlMs = 10, maxSize = 1, cache = []\<rparr>)"
  using check_empty_key_noop [of 7 "createDedupeCache \<lparr>options_ttlMs = 10, options_maxSize = 1\<rparr>"]
  by (simp add: createDedupeCache_def)

text \<open>
  C9. Starting from the empty cache, after any finite sequence of \<^verbatim>\<open>check\<close> calls, with
  any keys and any times, the store holds at most \<^verbatim>\<open>maxSize\<close> entries, where \<^verbatim>\<open>maxSize\<close>
  is the bound the cache was created with (\<^verbatim>\<open>Math.max(0, options.maxSize)\<close>). The theorem
  holds for every sequence, hence after every call of a sequence.
\<close>

theorem store_bounded:
  "int (length (cache (checks (createDedupeCache options) calls))) \<le> max 0 (options_maxSize options)"
proof -
  have "int (length (cache (checks (createDedupeCache options) calls)))
          \<le> maxSize (createDedupeCache options)"
    by (rule checks_bounded) (simp_all add: createDedupeCache_def)
  then show ?thesis by (simp add: createDedupeCache_def)
qed

theorem store_bounded_witness:
  "cache (checks (createDedupeCache \<lparr>options_ttlMs = 10, options_maxSize = 1\<rparr>)
            [(Some ''a'', 0), (Some ''b'', 1), (Some ''b'', 2)]) = [(''b'', 2)]
   \<and> int (length (cache (checks (createDedupeCache \<lparr>options_ttlMs = 10, options_maxSize = 1\<rparr>)
            [(Some ''a'', 0), (Some ''b'', 1), (Some ''b'', 2)]))) \<le> 1"
proof -
  have "cache (checks (createDedupeCache \<lparr>options_ttlMs = 10, options_maxSize = 1\<rparr>)
            [(Some ''a'', 0), (Some ''b'', 1), (Some ''b'', 2)]) = [(''b'', 2)]"
    by code_simp
  then show ?thesis
    using store_bounded [of "\<lparr>options_ttlMs = 10, options_maxSize = 1\<rparr>"
        "[(Some ''a'', 0), (Some ''b'', 1), (Some ''b'', 2)]"]
    by simp
qed

section \<open>Properties of the reply recipients\<close>

lemma reply_to_sender: "to (resolveReplyRecipients p) = [originalFrom p]"
  by (simp add: resolveReplyRecipients_def replyBotInTo_def replyBotInCc_def Let_def)

lemma reply_cc_excludes_bot:
  "toLowerCase (botEmail p) \<notin> toLowerCase ` set (cc (resolveReplyRecipients p))"
  by (auto simp: resolveReplyRecipients_def replyBotInTo_def replyBotInCc_def Let_def)

lemma lowerChar_idem: "lowerChar (lowerChar c) = lowerChar c"
  by (auto simp: lowerChar_def Let_def)

lemma toLowerCase_idem: "toLowerCase (toLowerCase s) = toLowerCase s"
  by (simp add: toLowerCase_def lowerChar_idem)

text \<open>
  C2. For every input, \<^verbatim>\<open>resolveReplyRecipients\<close> returns \<open>to = [originalFrom]\<close>; the
  \<open>cc\<close> list is empty when \<^verbatim>\<open>preserveCc\<close> is false; when it is true, \<open>cc\<close> is
  \<open>originalTo\<close> followed by \<open>originalCc\<close> without the addresses that equal
  \<open>botEmail\<close> or \<open>originalFrom\<close> up to case, in the original order and with nothing
  else removed.
\<close>

theorem reply_recipients_formula:
  "to (resolveReplyRecipients p) = [originalFrom p]
   \<and> (\<not> preserveCc p \<longrightarrow> cc (resolveReplyRecipients p) = [])
   \<and> (preserveCc p \<longrightarrow>
        cc (resolveReplyRecipients p)
          = filter (\<lambda>addr. toLowerCase addr \<noteq> toLowerCase (botEmail p)
                          \<and> toLowerCase addr \<noteq> toLowerCase (originalFrom p))
              (originalTo p @ originalCc p))"
  by (simp add: resolveReplyRecipients_def replyBotInTo_def replyBotInCc_def Let_def)

theorem reply_recipients_formula_witness:
  "resolveReplyRecipients
     \<lparr>botEmail = ''bot@x.com'', originalFrom = ''alice@x.com'',
      originalTo = [''Bot@X.com'', ''dave@x.com''],
      originalCc = [''carol@x.com'', ''ALICE@x.com'', ''dave@x.com''], preserveCc = True\<rparr>
     = \<lparr>to = [''alice@x.com''], cc = [''dave@x.com'', ''carol@x.com'', ''dave@x.com'']\<rparr>
   \<and> resolveReplyRecipients
     \<lparr>botEmail = ''bot@x.com'', originalFrom = ''alice@x.com'',
      originalTo = [''Bot@X.com'', ''dave@x.com''],
      originalCc = [''carol@x.com'', ''ALICE@x.com'', ''dave@x.com''], preserveCc = False\<rparr>
     = \<lparr>to = [''alice@x.com''], cc = []\<rparr>"
proof -
  let ?p = "\<lparr>botEmail = ''bot@x.com'', originalFrom = ''alice@x.com'',
      originalTo = [''Bot@X.com'', ''dave@x.com''],
      originalCc = [''carol@x.com'', ''ALICE@x.com'', ''dave@x.com''], preserveCc = True\<rparr>"
  let ?q = "\<lparr>botEmail = ''bot@x.com'', originalFrom = ''alice@x.com'',
      originalTo = [''Bot@X.com'', ''dave@x.com''],
      originalCc = [''carol@x.com'', ''ALICE@x.com'', ''dave@x.com''], preserveCc = False\<rparr>"
  have "filter (\<lambda>addr. toLowerCase addr \<noteq> toLowerCase (botEmail ?p)
                          \<and> toLowerCase addr \<noteq> toLowerCase (originalFrom ?p))
              (originalTo ?p @ originalCc ?p) = [''dave@x.com'', ''carol@x.com'', ''dave@x.com'']"
    by code_simp
  then have "to (resolveReplyRecipients ?p) = [''alice@x.com'']
     \<and> cc (resolveReplyRecipients ?p) = [''dave@x.com'', ''carol@x.com'', ''dave@x.com'']"
    using reply_recipients_formula [of ?p] by simp
  moreover have "to (resolveReplyRecipients ?q) = [''alice@x.com'']
     \<and> cc (resolveReplyRecipients ?q) = []"
    using reply_recipients_formula [of ?q] by simp
  ultimately show ?thesis by (metis ReplyRecipients.surjective old.unit.exhaust)
qed

text \<open>
  C5. The branch taken when the bot's address is in \<open>originalTo\<close> and the branch taken
  otherwise compute the same recipients, and \<^verbatim>\<open>resolveReplyRecipients\<close> equals the
  single formula without the case distinction.
\<close>

theorem branches_agree:
  "replyBotInTo p = replyBotInCc p
   \<and> resolveReplyRecipients p = resolveReplyRecipients_unbranched p"
  by (simp add: resolveReplyRecipients_def replyBotInTo_def replyBotInCc_def Let_def
      resolveReplyRecipients_unbranched_def)

theorem branches_agree_witness:
  "replyBotInTo \<lparr>botEmail = ''bot@x.com'', originalFrom = ''alice@x.com'',
       originalTo = [''dave@x.com''], originalCc = [''Bot@x.com'', ''carol@x.com''],
       preserveCc = True\<rparr>
     = \<lparr>to = [''alice@x.com''], cc = [''dave@x.com'', ''carol@x.com'']\<rparr>
   \<and> replyBotInCc \<lparr>botEmail = ''bot@x.com'', originalFrom = ''alice@x.com'',
       originalTo = [''dave@x.com''], originalCc = [''Bot@x.com'', ''carol@x.com''],
       preserveCc = True\<rparr>
     = \<lparr>to = [''alice@x.com''], cc = [''dave@x.com'', ''carol@x.com'']\<rparr>"
proof -
  let ?p = "\<lparr>botEmail = ''bot@x.com'', originalFrom = ''alice@x.com'',
       originalTo = [''dave@x.com''], originalCc = [''Bot@x.com'', ''carol@x.com''],
       preserveCc = True\<rparr>"
  have "replyBotInTo ?p = \<lparr>to = [''alice@x.com''], cc = [''dave@x.com'', ''carol@x.com'']\<rparr>"
    by code_simp
  then show ?thesis using branches_agree [of ?p] by simp
qed

text \<open>
  C3, as amended. The bot's address never appears, up to case, in the \<open>cc\<close> list; and it
  does not appear in the \<open>to\<close> list whenever \<open>originalFrom\<close> differs from \<open>botEmail\<close>
  up to case. The caller \<^verbatim>\<open>processInboundEmail\<close> passes only such inputs, because it
  drops a message whose sender is the bot before it resolves the recipients (lemma
  \<open>dispatched_recipients_exclude_bot\<close> below).
\<close>

theorem bot_not_in_reply:
  "toLowerCase (botEmail p) \<notin> toLowerCase ` set (cc (resolveReplyRecipients p))
   \<and> (toLowerCase (originalFrom p) \<noteq> toLowerCase (botEmail p) \<longrightarrow>
        toLowerCase (botEmail p) \<notin> toLowerCase ` set (to (resolveReplyRecipients p)))"
  using reply_cc_excludes_bot [of p] by (auto simp: reply_to_sender)

theorem bot_not_in_reply_witness:
  "toLowerCase ''alice@x.com'' \<noteq> toLowerCase ''bot@x.com''
   \<and> toLowerCase ''bot@x.com'' \<notin> toLowerCase ` set (cc (resolveReplyRecipients
        \<lparr>botEmail = ''bot@x.com'', originalFrom = ''alice@x.com'',
         originalTo = [''BOT@x.com''], originalCc = [''carol@x.com''], preserveCc = True\<rparr>))
   \<and> toLowerCase ''bot@x.com'' \<notin> toLowerCase ` set (to (resolveReplyRecipients
        \<lparr>botEmail = ''bot@x.com'', originalFrom = ''alice@x.com'',
         originalTo = [''BOT@x.com''], originalCc = [''carol@x.com''], preserveCc = True\<rparr>))"
proof -
  have h: "toLowerCase ''alice@x.com'' \<noteq> toLowerCase ''bot@x.com''" by code_simp
  then show ?thesis
    using bot_not_in_reply [of "\<lparr>botEmail = ''bot@x.com'', originalFrom = ''alice@x.com'',
         originalTo = [''BOT@x.com''], originalCc = [''carol@x.com''], preserveCc = True\<rparr>"]
    by simp
qed

text \<open>
  C3 as stated fails on the function by itself: when the sender's address is the bot's
  own address in another case, the reply goes to that address.
\<close>

theorem bot_in_reply_counterexample:
  "toLowerCase ''bot@x.com''
     \<in> toLowerCase ` set (to (resolveReplyRecipients
          \<lparr>botEmail = ''bot@x.com'', originalFrom = ''Bot@x.com'',
           originalTo = [''bot@x.com''], originalCc = [], preserveCc = True\<rparr>))"
  by code_simp

section \<open>Properties of the latest-content extractor\<close>

lemma scanLines_eq:
  "scanLines acc ls =
     acc @ filter (\<lambda>l. \<not> startsWith ''>'' l)
             (takeWhile (\<lambda>l. \<not> (matchesOnWrote (trim l) \<or> matchesOriginalMessage (trim l)
                                   \<or> matchesUnderscores (trim l))) ls)"
  by (induction ls arbitrary: acc) auto

lemma trim_Nil: "trim [] = []"
  by (simp add: trim_def)

text \<open>
  C6, as amended. For every body text, \<^verbatim>\<open>extractLatestContent\<close> keeps the lines before
  the first stop line, drops among them the lines that begin with \<^verbatim>\<open>>\<close>, joins the
  rest with line feeds and trims the result. A stop line is a line whose \<^emph>\<open>trimmed\<close> form
  matches \<^verbatim>\<open>^On .+ wrote:$\<close> in either case, or begins with two or more hyphens, optional
  white space and \<^verbatim>\<open>Original Message\<close> in either case, or consists of two or more
  underscores only. The test for \<^verbatim>\<open>>\<close> reads the line untrimmed.
\<close>

theorem extractLatestContent_spec:
  "extractLatestContent bodyText =
     trim (joinLines
       (filter (\<lambda>l. \<not> startsWith ''>'' l)
          (takeWhile (\<lambda>l. \<not> (matchesOnWrote (trim l) \<or> matchesOriginalMessage (trim l)
                                \<or> matchesUnderscores (trim l)))
             (splitLines bodyText))))"
proof (cases "bodyText = []")
  case True
  then show ?thesis
    by (simp add: extractLatestContent_def trim_Nil matchesOnWrote_def matchesOriginalMessage_def
        matchesUnderscores_def startsWith_def)
next
  case False
  then show ?thesis
    by (simp add: extractLatestContent_def scanLines_eq)
qed

theorem extractLatestContent_spec_witness:
  "extractLatestContent ''Hi there\<newline>\<newline>On Tue, Bob wrote:\<newline>> old stuff'' = ''Hi there''
   \<and> trim (joinLines
       (filter (\<lambda>l. \<not> startsWith ''>'' l)
          (takeWhile (\<lambda>l. \<not> (matchesOnWrote (trim l) \<or> matchesOriginalMessage (trim l)
                                \<or> matchesUnderscores (trim l)))
             (splitLines ''Hi there\<newline>\<newline>On Tue, Bob wrote:\<newline>> old stuff'')))) = ''Hi there''"
proof -
  have "extractLatestContent ''Hi there\<newline>\<newline>On Tue, Bob wrote:\<newline>> old stuff'' = ''Hi there''"
    by code_simp
  then show ?thesis
    using extractLatestContent_spec [of "''Hi there\<newline>\<newline>On Tue, Bob wrote:\<newline>> old stuff''"]
    by simp
qed

text \<open>
  C6 as stated tests the line itself. The line \<^verbatim>\<open> __\<close>, with a leading space, matches
  none of the three patterns and does not begin with \<^verbatim>\<open>>\<close>, so by the claim it is kept
  and the scan goes on; the code trims it first and stops there.
\<close>

theorem extractLatestContent_counterexample:
  "\<not> matchesOnWrote '' __'' \<and> \<not> matchesOriginalMessage '' __'' \<and> \<not> matchesUnderscores '' __''
   \<and> \<not> startsWith ''>'' '' __''
   \<and> trim (joinLines
       (filter (\<lambda>l. \<not> startsWith ''>'' l)
          (takeWhile (\<lambda>l. \<not> (matchesOnWrote l \<or> matchesOriginalMessage l \<or> matchesUnderscores l))
             (splitLines ''a\<newline> __\<newline>b'')))) = ''a\<newline> __\<newline>b''
   \<and> extractLatestContent ''a\<newline> __\<newline>b'' = ''a''"
  by code_simp

text \<open>The three patterns on sample lines: letters in either case, the dot that needs
  at least one unit and refuses a carriage return, the second pattern open at its end.\<close>

lemma pattern_examples:
  "matchesOnWrote ''On Tue, Bob wrote:''"
  "matchesOnWrote ''on x WROTE:''"
  "\<not> matchesOnWrote ''On  wrote:''"
  "\<not> matchesOnWrote [CHR ''O'', CHR ''n'', CHR '' '', CHR ''a'', CHR 0x0D, CHR ''b'',
        CHR '' '', CHR ''w'', CHR ''r'', CHR ''o'', CHR ''t'', CHR ''e'', CHR '':'']"
  "\<not> matchesOnWrote ''On Tue, Bob wrote: ''"
  "matchesOriginalMessage ''-----Original Message-----''"
  "matchesOriginalMessage ''--  original message''"
  "\<not> matchesOriginalMessage ''-Original Message''"
  "\<not> matchesOriginalMessage ''--''"
  "matchesUnderscores ''__''"
  "\<not> matchesUnderscores ''_''"
  "\<not> matchesUnderscores ''__ _''"
  by code_simp+

text \<open>The examples of the specification, and the second pattern with and without its
  words.\<close>

lemma extractLatestContent_examples:
  "extractLatestContent ''>quoted\<newline>>more quoted'' = []"
  "extractLatestContent ''a\<newline>-----Original Message-----\<newline>b'' = ''a''"
  "extractLatestContent ''a\<newline>--\<newline>b'' = ''a\<newline>--\<newline>b''"
  by code_simp+

section \<open>Properties of the inbound gate\<close>

text \<open>
  C7, as amended. When the policy is neither open nor disabled and the allow-list is not
  empty, a message is dispatched only if the sender's address, in lower case, is in the
  lower-cased allow-list or the list holds the wildcard; the policy disabled always
  blocks; a message whose sender is the bot's own address, up to case, is always
  dropped, whatever the policy.
\<close>

theorem inbound_gate:
  "(isDispatched (processInboundEmail h account userEmail email)
      \<and> accountDmPolicy account \<noteq> Open \<and> accountDmPolicy account \<noteq> Disabled
      \<and> accountAllowFrom account \<noteq> [] \<longrightarrow>
        toLowerCase (email_from email) \<in> set (accountAllowFrom account)
        \<or> ''*'' \<in> set (accountAllowFrom account))
   \<and> (accountDmPolicy account = Disabled \<longrightarrow>
        \<not> isDispatched (processInboundEmail h account userEmail email))
   \<and> (toLowerCase (email_from email) = resolveBotEmail account userEmail \<longrightarrow>
        processInboundEmail h account userEmail email = SkippedSelf)"
  by (auto simp: processInboundEmail_def Let_def split: if_splits)

theorem inbound_gate_witness:
  "isDispatched (processInboundEmail (\<lambda>html. html)
      \<lparr>account_gmailAddress = Some ''Bot@x.com'', config_dmPolicy = Some Allowlist,
       config_allowFrom = Some [''Alice@Y.com''], config_preserveCc = None\<rparr>
      ''u@x.com''
      \<lparr>email_from = ''alice@y.com'', email_to = [''bot@x.com''], email_cc = [],
       email_bodyText = ''hi'', email_bodyHtml = [], email_attachments = []\<rparr>)
   \<and> toLowerCase ''alice@y.com'' \<in> set (accountAllowFrom
      \<lparr>account_gmailAddress = Some ''Bot@x.com'', config_dmPolicy = Some Allowlist,
       config_allowFrom = Some [''Alice@Y.com''], config_preserveCc = None\<rparr>)
   \<and> \<not> isDispatched (processInboundEmail (\<lambda>html. html)
      \<lparr>account_gmailAddress = Some ''Bot@x.com'', config_dmPolicy = Some Disabled,
       config_allowFrom = Some [''*''], config_preserveCc = None\<rparr>
      ''u@x.com''
      \<lparr>email_from = ''alice@y.com'', email_to = [''bot@x.com''], email_cc = [],
       email_bodyText = ''hi'', email_bodyHtml = [], email_attachments = []\<rparr>)
   \<and> processInboundEmail (\<lambda>html. html)
      \<lparr>account_gmailAddress = Some ''Bot@x.com'', config_dmPolicy = Some Open,
       config_allowFrom = Some [''*''], config_preserveCc = None\<rparr>
      ''u@x.com''
      \<lparr>email_from = ''BOT@x.com'', email_to = [''bot@x.com''], email_cc = [],
       email_bodyText = ''hi'', email_bodyHtml = [], email_attachments = []\<rparr> = SkippedSelf"
proof -
  let ?a = "\<lparr>account_gmailAddress = Some ''Bot@x.com'', config_dmPolicy = Some Allowlist,
       config_allowFrom = Some [''Alice@Y.com''], config_preserveCc = None\<rparr>"
  let ?d = "\<lparr>account_gmailAddress = Some ''Bot@x.com'', config_dmPolicy = Some Disabled,
       config_allowFrom = Some [''*''], config_preserveCc = None\<rparr>"
  let ?o = "\<lparr>account_gmailAddress = Some ''Bot@x.com'', config_dmPolicy = Some Open,
       config_allowFrom = Some [''*''], config_preserveCc = None\<rparr>"
  let ?e = "\<lparr>email_from = ''alice@y.com'', email_to = [''bot@x.com''], email_cc = [],
       email_bodyText = ''hi'', email_bodyHtml = [], email_attachments = []\<rparr>"
  let ?s = "\<lparr>email_from = ''BOT@x.com'', email_to = [''bot@x.com''], email_cc = [],
       email_bodyText = ''hi'', email_bodyHtml = [], email_attachments = []\<rparr>"
  have h1: "isDispatched (processInboundEmail (\<lambda>html. html) ?a ''u@x.com'' ?e)
      \<and> accountDmPolicy ?a \<noteq> Open \<and> accountDmPolicy ?a \<noteq> Disabled
      \<and> accountAllowFrom ?a \<noteq> []"
    by code_simp
  have w: "''*'' \<notin> set (accountAllowFrom ?a)" by code_simp
  have h2: "accountDmPolicy ?d = Disabled" by code_simp
  have h3: "toLowerCase (email_from ?s) = resolveBotEmail ?o ''u@x.com''" by code_simp
  have "toLowerCase (email_from ?e) \<in> set (accountAllowFrom ?a)"
    using inbound_gate [of "\<lambda>html. html" ?a "''u@x.com''" ?e] h1 w by blast
  moreover have "\<not> isDispatched (processInboundEmail (\<lambda>html. html) ?d ''u@x.com'' ?e)"
    using inbound_gate [of "\<lambda>html. html" ?d "''u@x.com''" ?e] h2 by blast
  moreover have "processInboundEmail (\<lambda>html. html) ?o ''u@x.com'' ?s = SkippedSelf"
    using inbound_gate [of "\<lambda>html. html" ?o "''u@x.com''" ?s] h3 by blast
  ultimately show ?thesis using h1 by simp
qed

text \<open>
  C7 as stated fails for an empty allow-list: under the policy allowlist, with no
  address listed and no wildcard, a message from any sender is dispatched, because the
  source applies the sender filter only when \<^verbatim>\<open>allowFrom.length > 0\<close>.
\<close>

theorem inbound_gate_counterexample:
  "isDispatched (processInboundEmail (\<lambda>html. html)
      \<lparr>account_gmailAddress = Some ''bot@x.com'', config_dmPolicy = Some Allowlist,
       config_allowFrom = Some [], config_preserveCc = None\<rparr>
      ''bot@x.com''
      \<lparr>email_from = ''eve@y.com'', email_to = [''bot@x.com''], email_cc = [],
       email_bodyText = ''hi'', email_bodyHtml = [], email_attachments = []\<rparr>)
   \<and> accountDmPolicy
      \<lparr>account_gmailAddress = Some ''bot@x.com'', config_dmPolicy = Some Allowlist,
       config_allowFrom = Some [], config_preserveCc = None\<rparr> = Allowlist
   \<and> ''eve@y.com'' \<notin> set (accountAllowFrom
      \<lparr>account_gmailAddress = Some ''bot@x.com'', config_dmPolicy = Some Allowlist,
       config_allowFrom = Some [], config_preserveCc = None\<rparr>)
   \<and> ''*'' \<notin> set (accountAllowFrom
      \<lparr>account_gmailAddress = Some ''bot@x.com'', config_dmPolicy = Some Allowlist,
       config_allowFrom = Some [], config_preserveCc = None\<rparr>)"
  by code_simp

text \<open>Whatever is dispatched carries recipients without the bot's address: the gate has
  dropped the messages the bot sent itself.\<close>

lemma resolveBotEmail_lower:
  "toLowerCase (resolveBotEmail account userEmail) = resolveBotEmail account userEmail"
  by (simp add: resolveBotEmail_def toLowerCase_idem split: option.splits)

lemma dispatched_recipients_exclude_bot:
  assumes "processInboundEmail h account userEmail email = Dispatched content r"
  shows "resolveBotEmail account userEmail \<notin> toLowerCase ` set (to r)
       \<and> resolveBotEmail account userEmail \<notin> toLowerCase ` set (cc r)"
proof -
  let ?bot = "resolveBotEmail account userEmail"
  let ?p = "\<lparr>botEmail = ?bot, originalFrom = email_from email, originalTo = email_to email,
             originalCc = email_cc email, preserveCc = (config_preserveCc account \<noteq> Some False)\<rparr>"
  have ns: "toLowerCase (email_from email) \<noteq> ?bot"
    using assms by (auto simp: processInboundEmail_def Let_def split: if_splits)
  have r: "r = resolveReplyRecipients ?p"
    using assms by (auto simp: processInboundEmail_def Let_def split: if_splits)
  have "?bot \<notin> toLowerCase ` set (cc r)"
    using reply_cc_excludes_bot [of ?p] by (simp add: r resolveBotEmail_lower)
  moreover have "?bot \<notin> toLowerCase ` set (to r)"
    using ns by (simp add: r reply_to_sender)
  ultimately show ?thesis by simp
qed

section \<open>Properties of the message-id extraction\<close>

lemma dropWhile_hd: "xs \<noteq> [] \<Longrightarrow> \<not> P (hd xs) \<Longrightarrow> dropWhile P xs = xs"
  by (cases xs) auto

lemma last_dropWhile: "dropWhile P xs \<noteq> [] \<Longrightarrow> last (dropWhile P xs) = last xs"
  by (induction xs) (auto split: if_splits)

lemma trim_ends:
  assumes "trim s \<noteq> []"
  shows "\<not> isWhiteSpace (hd (trim s)) \<and> \<not> isWhiteSpace (last (trim s))"
proof -
  let ?a = "dropWhile isWhiteSpace s"
  let ?b = "dropWhile isWhiteSpace (rev ?a)"
  have b: "?b \<noteq> []" using assms by (simp add: trim_def)
  have a: "?a \<noteq> []"
  proof
    assume "?a = []"
    then have "?b = []" by (metis dropWhile.simps(1) rev.simps(1))
    with b show False by contradiction
  qed
  have "\<not> isWhiteSpace (hd ?b)" using b by (rule hd_dropWhile)
  then have l: "\<not> isWhiteSpace (last (trim s))" using b by (simp add: trim_def last_rev)
  have "last ?b = last (rev ?a)" using b by (rule last_dropWhile)
  also have "\<dots> = hd ?a" using a by (simp add: last_rev)
  finally have "hd (trim s) = hd ?a" using b by (simp add: trim_def hd_rev)
  moreover have "\<not> isWhiteSpace (hd ?a)" using a by (rule hd_dropWhile)
  ultimately show ?thesis using l by simp
qed

lemma trim_fixed:
  assumes "s \<noteq> []" "\<not> isWhiteSpace (hd s)" "\<not> isWhiteSpace (last s)"
  shows "trim s = s"
proof -
  have "dropWhile isWhiteSpace s = s" using assms(1,2) by (rule dropWhile_hd)
  moreover have "dropWhile isWhiteSpace (rev s) = rev s"
    using assms(1,3) by (intro dropWhile_hd) (simp_all add: hd_rev)
  ultimately show ?thesis by (simp add: trim_def)
qed

lemma trim_idem: "trim (trim s) = trim s"
proof (cases "trim s = []")
  case True
  show ?thesis unfolding True by (simp add: trim_def)
next
  case False
  then show ?thesis using trim_ends [OF False] by (intro trim_fixed) simp_all
qed

lemma normalizeMessageId_Some:
  "normalizeMessageId raw = Some i \<longleftrightarrow> (\<exists>s. raw = JStr s \<and> i = trim s \<and> trim s \<noteq> [])"
  by (auto simp: normalizeMessageId_def Let_def split: json.splits)

lemma set_pushMessageId:
  "set (pushMessageId target raw) = set target \<union> {i. normalizeMessageId raw = Some i}"
  by (auto simp: pushMessageId_def set_add_def split: option.splits)

lemma distinct_pushMessageId: "distinct target \<Longrightarrow> distinct (pushMessageId target raw)"
  by (auto simp: pushMessageId_def set_add_def split: option.splits)

lemma set_foldl_push:
  "set (foldl pushMessageId target cs)
     = set target \<union> {i. \<exists>raw\<in>set cs. normalizeMessageId raw = Some i}"
  by (induction cs arbitrary: target) (auto simp: set_pushMessageId)

lemma distinct_foldl_push:
  "distinct target \<Longrightarrow> distinct (foldl pushMessageId target cs)"
  by (induction cs arbitrary: target) (auto simp: distinct_pushMessageId)

lemma pushMessage_eq: "pushMessage target m = foldl pushMessageId target (messageCandidates m)"
  by (simp add: pushMessage_def messageCandidates_def split: option.splits)

lemma foldl_pushMessage_eq:
  "foldl pushMessage target ms = foldl pushMessageId target (concat (map messageCandidates ms))"
  by (induction ms arbitrary: target) (simp_all add: pushMessage_eq)

lemma collect_eq:
  "collectMessageIdsFromNode target node = foldl pushMessageId target (nodeCandidates node)"
  by (simp add: collectMessageIdsFromNode_def nodeCandidates_def Let_def foldl_pushMessage_eq
      split: option.splits json.splits)

lemma extract_eq:
  "extractInboundMessageIds payload = foldl pushMessageId [] (payloadCandidates payload)"
  by (simp add: extractInboundMessageIds_def payloadCandidates_def Let_def collect_eq
      split: option.splits)

text \<open>
  C10. For every payload, the ids returned by \<^verbatim>\<open>extractInboundMessageIds\<close> are pairwise
  different, each is a non-empty trimmed string, and together they are exactly the
  trimmed, non-blank strings among the candidates: the \<^verbatim>\<open>messageId\<close> and \<^verbatim>\<open>id\<close> fields
  of the payload, the elements of its \<^verbatim>\<open>messageIds\<close> array, the \<^verbatim>\<open>messageId\<close> and \<^verbatim>\<open>id\<close>
  fields of the elements of its \<^verbatim>\<open>messages\<close> array, and the same under \<^verbatim>\<open>data\<close>.
  Candidates that are not strings, or blank, contribute nothing.
\<close>

theorem extractInboundMessageIds_ids:
  "distinct (extractInboundMessageIds payload)
   \<and> (\<forall>i\<in>set (extractInboundMessageIds payload). i \<noteq> [] \<and> trim i = i)
   \<and> set (extractInboundMessageIds payload)
       = {trim s | s. JStr s \<in> set (payloadCandidates payload) \<and> trim s \<noteq> []}"
proof -
  have s: "set (extractInboundMessageIds payload)
       = {trim s | s. JStr s \<in> set (payloadCandidates payload) \<and> trim s \<noteq> []}"
    unfolding extract_eq set_foldl_push by (auto simp: normalizeMessageId_Some)
  have d: "distinct (extractInboundMessageIds payload)"
    unfolding extract_eq by (rule distinct_foldl_push) simp
  have "\<forall>i\<in>set (extractInboundMessageIds payload). i \<noteq> [] \<and> trim i = i"
    unfolding s by (auto simp: trim_idem)
  then show ?thesis using s d by blast
qed

theorem extractInboundMessageIds_ids_witness:
  "extractInboundMessageIds
     (JObj [(''messageId'', JStr ''m1''),
            (''messageIds'', JArr [JStr [], JStr ''m1'', JStr ''m2'', JNum 5]),
            (''messages'', JArr [JObj [(''id'', JStr ''m2'')], JObj [(''messageId'', JStr ''   '')]]),
            (''data'', JObj [(''messageIds'', JArr [JStr ''m2'', JStr ''m3''])])])
     = [''m1'', ''m2'', ''m3'']
   \<and> distinct (extractInboundMessageIds
     (JObj [(''messageId'', JStr ''m1''),
            (''messageIds'', JArr [JStr [], JStr ''m1'', JStr ''m2'', JNum 5]),
            (''messages'', JArr [JObj [(''id'', JStr ''m2'')], JObj [(''messageId'', JStr ''   '')]]),
            (''data'', JObj [(''messageIds'', JArr [JStr ''m2'', JStr ''m3''])])]))
   \<and> trim ''m2'' = ''m2''"
proof -
  let ?p = "(JObj [(''messageId'', JStr ''m1''),
            (''messageIds'', JArr [JStr [], JStr ''m1'', JStr ''m2'', JNum 5]),
            (''messages'', JArr [JObj [(''id'', JStr ''m2'')], JObj [(''messageId'', JStr ''   '')]]),
            (''data'', JObj [(''messageIds'', JArr [JStr ''m2'', JStr ''m3''])])])"
  have v: "extractInboundMessageIds ?p = [''m1'', ''m2'', ''m3'']" by code_simp
  have "''m2'' \<in> set (extractInboundMessageIds ?p)" unfolding v by simp
  then have "trim ''m2'' = ''m2''" using extractInboundMessageIds_ids [of ?p] by blast
  moreover have "distinct (extractInboundMessageIds ?p)"
    using extractInboundMessageIds_ids [of ?p] by blast
  ultimately show ?thesis using v by simp
qed

text \<open>The expectations of the repository's tests for \<^verbatim>\<open>extractInboundMessageIds\<close>.\<close>

lemma extractInboundMessageIds_tests:
  "extractInboundMessageIds (JObj [(''messageId'', JStr ''m1'')]) = [''m1'']"
  "extractInboundMessageIds (JObj [(''messageIds'', JArr [JStr ''m1'', JStr ''m2''])])
     = [''m1'', ''m2'']"
  "extractInboundMessageIds
     (JObj [(''messages'', JArr [JObj [(''id'', JStr ''m1'')], JObj [(''messageId'', JStr ''m2'')]]),
            (''data'', JObj [(''messageId'', JStr ''m3''),
                             (''messages'', JArr [JObj [(''id'', JStr ''m4'')]])])])
     = [''m1'', ''m2'', ''m3'', ''m4'']"
  by code_simp+

end
